theory Spec2Isabelle
  imports Complex_Main "HOL-Library.Multiset"
begin

section \<open>Requests\<close>

text \<open>
  The simulator computes on Go \<open>float64\<close> values.  They are modelled by \<^typ>\<open>real\<close>:
  arithmetic is exact; rounding, infinities and NaN are outside the model.  Go's \<open>int\<close>
  is modelled by \<^typ>\<open>int\<close>, slice and list positions by \<^typ>\<open>nat\<close>.
\<close>

record Request =
  InitTime :: real
  ServiceTime :: real
  OriginalServiceTime :: real

text \<open>
  A value of \<open>engine.ReqInterface\<close> is a pointer to one of the four request structs of
  package \<open>blocks\<close>; the last three embed \<open>Request\<close> and add \<open>stolen\<close>,
  \<open>initLength\<close> and \<open>finalLength\<close>, and \<open>color\<close>.
\<close>

datatype ReqInterface =
    PlainReq Request
  | StealableReq Request bool
  | MonitorReq Request int int
  | ColoredReq Request int

fun base :: "ReqInterface \<Rightarrow> Request" where
  "base (PlainReq r) = r"
| "base (StealableReq r stolen) = r"
| "base (MonitorReq r initLength finalLength) = r"
| "base (ColoredReq r color) = r"

fun map_base :: "(Request \<Rightarrow> Request) \<Rightarrow> ReqInterface \<Rightarrow> ReqInterface" where
  "map_base f (PlainReq r) = PlainReq (f r)"
| "map_base f (StealableReq r stolen) = StealableReq (f r) stolen"
| "map_base f (MonitorReq r initLength finalLength) = MonitorReq (f r) initLength finalLength"
| "map_base f (ColoredReq r color) = ColoredReq (f r) color"

text \<open>What the verb \<open>%T\<close> prints for a request.\<close>

fun typeName :: "ReqInterface \<Rightarrow> string" where
  "typeName (PlainReq r) = ''*blocks.Request''"
| "typeName (StealableReq r stolen) = ''*blocks.StealableReq''"
| "typeName (MonitorReq r initLength finalLength) = ''*blocks.MonitorReq''"
| "typeName (ColoredReq r color) = ''*blocks.ColoredReq''"

text \<open>
  The methods of \<open>Request\<close>, promoted to every variant by the embedding.
  \<open>GetDelay\<close> reads the engine clock; the clock value is passed in.
\<close>

definition GetDelay :: "real \<Rightarrow> ReqInterface \<Rightarrow> real" where
  "GetDelay now el = now - InitTime (base el)"

definition GetServiceTime :: "ReqInterface \<Rightarrow> real" where
  "GetServiceTime el = ServiceTime (base el)"

definition SubServiceTime :: "real \<Rightarrow> ReqInterface \<Rightarrow> ReqInterface" where
  "SubServiceTime t el = map_base (\<lambda>r. r\<lparr>ServiceTime := ServiceTime r - t\<rparr>) el"

definition GetOriginalServiceTime :: "ReqInterface \<Rightarrow> real" where
  "GetOriginalServiceTime el = OriginalServiceTime (base el)"

text \<open>\<open>SimpleReqCreator.NewRequest\<close>, called at engine time \<open>now\<close>.\<close>

definition NewRequest :: "real \<Rightarrow> real \<Rightarrow> ReqInterface" where
  "NewRequest now serviceTime =
     PlainReq \<lparr>InitTime = now, ServiceTime = serviceTime, OriginalServiceTime = serviceTime\<rparr>"

text \<open>
  The run-time failures of the Go code that the model keeps.  \<open>WrongIndex\<close> is the panic
  of \<open>addSample\<close>, whose message prints the index.
\<close>

datatype panic =
    NilPointer
  | IndexOutOfRange
  | TypeAssertion
  | Message string
  | WrongIndex int

section \<open>The statistics drain\<close>

record RequestData =
  RD_ServiceTime :: real
  Delay :: real

record AllKeeper =
  items :: "RequestData list"
  name :: string
  stolenCount :: int

text \<open>
  \<open>AllKeeper.TerminateReq\<close>.  Every variant has \<open>GetOriginalServiceTime\<close>, so the
  fallback branch is never taken.
\<close>

definition TerminateReq :: "real \<Rightarrow> ReqInterface \<Rightarrow> AllKeeper \<Rightarrow> AllKeeper" where
  "TerminateReq now req k =
     (let delay = GetDelay now req;
          serviceTime = GetOriginalServiceTime req;
          k1 = k\<lparr>items := items k @ [\<lparr>RD_ServiceTime = serviceTime, Delay = delay\<rparr>]\<rparr>
      in case req of
           StealableReq r stolen \<Rightarrow>
             (if stolen then k1\<lparr>stolenCount := stolenCount k1 + 1\<rparr> else k1)
         | _ \<Rightarrow> k1)"

definition SetName :: "string \<Rightarrow> AllKeeper \<Rightarrow> AllKeeper" where
  "SetName n k = k\<lparr>name := n\<rparr>"

text \<open>
  The accumulation loops of \<open>avg\<close> and \<open>std\<close>, with \<open>tmp\<close> as accumulator.  Go divides
  by zero for an empty \<open>items\<close> and takes the root of a negative number to NaN; the
  model agrees with Go where there is an item and the argument of the root is not
  negative.
\<close>

fun avg_loop :: "real \<Rightarrow> RequestData list \<Rightarrow> real" where
  "avg_loop tmp [] = tmp"
| "avg_loop tmp (item # rest) = avg_loop (tmp + Delay item) rest"

fun std_loop :: "real \<Rightarrow> RequestData list \<Rightarrow> real" where
  "std_loop tmp [] = tmp"
| "std_loop tmp (item # rest) = std_loop (tmp + Delay item * Delay item) rest"

definition avg :: "AllKeeper \<Rightarrow> real" where
  "avg k = avg_loop 0 (items k) / real (length (items k))"

definition std :: "AllKeeper \<Rightarrow> real" where
  "std k = sqrt (std_loop 0 (items k) / real (length (items k)) - avg k)"

text \<open>
  The standard deviation of a list of delays as the specification words it: the square
  root of the mean of the squared delays minus the square of the mean delay.
\<close>

definition spec_std :: "real list \<Rightarrow> real" where
  "spec_std ds =
     sqrt (sum_list (map (\<lambda>d. d * d) ds) / real (length ds)
           - (sum_list ds / real (length ds)) * (sum_list ds / real (length ds)))"

subsection \<open>The histogram of \<open>BookKeeper\<close>\<close>

text \<open>
  The fields \<open>count\<close> and \<open>sum\<close> carry a suffix here.  \<open>go_int\<close> is Go's conversion
  of a \<open>float64\<close> to \<open>int\<close>, which drops the fraction.
\<close>

definition bUCKETCOUNT :: int where
  "bUCKETCOUNT = 100000"

definition gRANULARITY :: real where
  "gRANULARITY = 1 / 100"

record histogram =
  granularity :: real
  buckets :: "int list"
  count_h :: int
  minBucket :: int
  maxBucket :: int
  sum_h :: real
  sumSquare :: real

definition newHistogram :: histogram where
  "newHistogram =
     \<lparr>granularity = gRANULARITY, buckets = replicate (nat bUCKETCOUNT) 0, count_h = 0,
      minBucket = bUCKETCOUNT - 1, maxBucket = 0, sum_h = 0, sumSquare = 0\<rparr>"

definition go_int :: "real \<Rightarrow> int" where
  "go_int x = (if 0 \<le> x then \<lfloor>x\<rfloor> else \<lceil>x\<rceil>)"

definition addSample :: "real \<Rightarrow> histogram \<Rightarrow> panic + histogram" where
  "addSample s hdr =
     (let index0 = go_int (s / granularity hdr);
          index = (if index0 \<ge> bUCKETCOUNT then bUCKETCOUNT - 1 else index0)
      in if index < 0 \<or> index \<ge> bUCKETCOUNT then Inl (WrongIndex index)
         else
           (let h1 = hdr\<lparr>buckets := (buckets hdr)[nat index := buckets hdr ! nat index + 1]\<rparr>;
                h2 = (if index > maxBucket h1 then h1\<lparr>maxBucket := index\<rparr> else h1);
                h3 = (if index < minBucket h2 then h2\<lparr>minBucket := index\<rparr> else h2)
            in Inr (h3\<lparr>count_h := count_h h3 + 1, sum_h := sum_h h3 + s,
                       sumSquare := sumSquare h3 + s * s\<rparr>)))"

definition histogram_avg :: "histogram \<Rightarrow> real" where
  "histogram_avg hdr = sum_h hdr / real_of_int (count_h hdr)"

definition stddev :: "histogram \<Rightarrow> real" where
  "stddev hdr =
     (let squareAvg = sumSquare hdr / real_of_int (count_h hdr);
          mean = histogram_avg hdr
      in sqrt (squareAvg - mean * mean))"

section \<open>Queues\<close>

subsection \<open>The FIFO queue\<close>

text \<open>
  \<open>Queue\<close> wraps a \<open>container/list\<close>, front first; its \<open>id\<close> is used for printing
  only.  \<open>Dequeue\<close> on an empty queue passes the nil front element to \<open>Remove\<close>,
  which dereferences it.
\<close>

definition Queue_Enqueue :: "ReqInterface \<Rightarrow> ReqInterface list \<Rightarrow> ReqInterface list" where
  "Queue_Enqueue el l = l @ [el]"

fun Queue_Dequeue :: "ReqInterface list \<Rightarrow> panic + ReqInterface \<times> ReqInterface list" where
  "Queue_Dequeue [] = Inl NilPointer"
| "Queue_Dequeue (el # l) = Inr (el, l)"

subsection \<open>The priority queue\<close>

text \<open>
  Interface \<open>Comparable\<close> asks for \<open>GetCmpVal\<close>, \<open>GetServiceTime\<close> and \<open>GetInitTime\<close>.
  The sources define \<open>GetServiceTime\<close> only; which requests have the other two methods,
  and what they return, is a parameter of the model: \<open>implements\<close> is the outcome of the
  type assertion \<open>el.(Comparable)\<close>.
\<close>

record Comparable =
  implements :: "ReqInterface \<Rightarrow> bool"
  GetCmpVal :: "ReqInterface \<Rightarrow> real"
  GetInitTime :: "ReqInterface \<Rightarrow> real"

text \<open>
  \<open>pQueue\<close> is a slice; \<open>Less\<close> and \<open>Swap\<close> are its \<open>sort.Interface\<close> methods.  The
  heap functions call them with positions of the slice only.
\<close>

definition Less :: "Comparable \<Rightarrow> ReqInterface list \<Rightarrow> nat \<Rightarrow> nat \<Rightarrow> bool" where
  "Less C pq i j =
     (if GetCmpVal C (pq ! i) = GetCmpVal C (pq ! j)
      then GetInitTime C (pq ! i) < GetInitTime C (pq ! j)
      else GetCmpVal C (pq ! i) < GetCmpVal C (pq ! j))"

definition Swap :: "ReqInterface list \<Rightarrow> nat \<Rightarrow> nat \<Rightarrow> ReqInterface list" where
  "Swap pq i j = pq[i := pq ! j, j := pq ! i]"

text \<open>
  \<open>up\<close> and \<open>down\<close> of \<open>container/heap\<close> in Go's standard library, which \<open>PQueue\<close>
  builds on.  In \<open>up\<close> the parent of \<open>j\<close> is
  \<open>(j - 1) / 2\<close>, which is \<open>0\<close> for \<open>j = 0\<close> both in Go (the quotient truncates
  towards zero) and on \<^typ>\<open>nat\<close>.  The overflow test \<open>j1 < 0\<close> of \<open>down\<close> has no
  counterpart on \<^typ>\<open>nat\<close>.
\<close>

function up :: "Comparable \<Rightarrow> ReqInterface list \<Rightarrow> nat \<Rightarrow> ReqInterface list" where
  "up C h j =
     (let i = (j - 1) div 2
      in if i = j \<or> \<not> Less C h j i then h else up C (Swap h i j) i)"
  by pat_completeness auto
termination
  by (relation "measure (\<lambda>(C, h, j). j)") auto

function down :: "Comparable \<Rightarrow> ReqInterface list \<Rightarrow> nat \<Rightarrow> nat \<Rightarrow> ReqInterface list" where
  "down C h i n =
     (let j1 = 2 * i + 1
      in if j1 \<ge> n then h
         else let j = (if j1 + 1 < n \<and> Less C h (j1 + 1) j1 then j1 + 1 else j1)
              in if \<not> Less C h j i then h else down C (Swap h i j) j n)"
  by pat_completeness auto
termination
  by (relation "measure (\<lambda>(C, h, i, n). n - i)") auto

declare up.simps [simp del] down.simps [simp del]

text \<open>
  \<open>heap.Push\<close> appends and sifts the last position up.  \<open>heap.Pop\<close> swaps the first and
  the last position, sifts the first one down within the shorter prefix and removes the
  last element; on the empty slice the swap indexes position \<open>-1\<close>.
\<close>

definition heap_Push :: "Comparable \<Rightarrow> ReqInterface list \<Rightarrow> ReqInterface \<Rightarrow> ReqInterface list" where
  "heap_Push C h x = (let h1 = h @ [x] in up C h1 (length h1 - 1))"

definition heap_Pop :: "Comparable \<Rightarrow> ReqInterface list \<Rightarrow> panic + ReqInterface \<times> ReqInterface list" where
  "heap_Pop C h =
     (if h = [] then Inl IndexOutOfRange
      else let n = length h - 1;
               h1 = Swap h 0 n;
               h2 = down C h1 0 n
           in Inr (h2 ! n, take n h2))"

definition NewPQueue :: "ReqInterface list" where
  "NewPQueue = []"

text \<open>
  \<open>PQueue.Enqueue\<close> returns the queue after the call and the panic, if any;
  \<open>PQueue.Dequeue\<close> is \<open>heap.Pop\<close>.
\<close>

definition PQueue_Enqueue ::
  "Comparable \<Rightarrow> ReqInterface \<Rightarrow> ReqInterface list \<Rightarrow> ReqInterface list \<times> panic option" where
  "PQueue_Enqueue C el pq =
     (if \<not> implements C el
      then (pq, Some (Message
              (''Element enqueued to PQueue does not implement blocks.Comparable interface: ''
               @ typeName el)))
      else (heap_Push C pq el, None))"

definition PQueue_Dequeue ::
  "Comparable \<Rightarrow> ReqInterface list \<Rightarrow> panic + ReqInterface \<times> ReqInterface list" where
  "PQueue_Dequeue C pq = heap_Pop C pq"

subsection \<open>\<open>engine.QueueInterface\<close>\<close>

datatype QueueInterface = Queue "ReqInterface list" | PQueue "ReqInterface list"


fun Enqueue :: "Comparable \<Rightarrow> ReqInterface \<Rightarrow> QueueInterface \<Rightarrow> QueueInterface \<times> panic option" where
  "Enqueue C el (Queue l) = (Queue (Queue_Enqueue el l), None)"
| "Enqueue C el (PQueue pq) = (case PQueue_Enqueue C el pq of (pq', e) \<Rightarrow> (PQueue pq', e))"

fun Dequeue :: "Comparable \<Rightarrow> QueueInterface \<Rightarrow> panic + ReqInterface \<times> QueueInterface" where
  "Dequeue C (Queue l) =
     (case Queue_Dequeue l of Inl e \<Rightarrow> Inl e | Inr (el, l') \<Rightarrow> Inr (el, Queue l'))"
| "Dequeue C (PQueue pq) =
     (case PQueue_Dequeue C pq of Inl e \<Rightarrow> Inl e | Inr (el, pq') \<Rightarrow> Inr (el, PQueue pq'))"

fun Len :: "QueueInterface \<Rightarrow> nat" where
  "Len (Queue l) = length l"
| "Len (PQueue pq) = length pq"

section \<open>The engine, as far as the processors use it\<close>

text \<open>
  Package \<open>engine\<close> is not part of the sources.  An actor sees it through the clock,
  its input and output queue and the primitives below.  \<open>log\<close> records what the actor
  does, in order.  The argument \<open>C\<close> of the primitives is the method table that a
  priority queue consults.
\<close>

datatype event =
    EvRead ReqInterface
  | EvWait real
  | EvSub real
  | EvWriteIn ReqInterface
  | EvWriteOut ReqInterface
  | EvTerminate ReqInterface real

fun is_EvRead :: "event \<Rightarrow> bool" where
  "is_EvRead (EvRead req) = True"
| "is_EvRead ev = False"

fun is_EvWriteIn :: "event \<Rightarrow> bool" where
  "is_EvWriteIn (EvWriteIn req) = True"
| "is_EvWriteIn ev = False"

record sim =
  clock :: real
  inq :: QueueInterface
  outq :: QueueInterface
  keeper :: AllKeeper
  log :: "event list"

datatype status = Running | BlockedOnRead | Crashed panic

datatype read_result = Got ReqInterface sim | WouldBlock | ReadPanic panic

text \<open>
  Modelled from the spec: \<open>read_in_queue\<close> returns the head of a non-empty input queue
  at once and suspends the actor on an empty one.
\<close>

definition ReadInQueue :: "Comparable \<Rightarrow> sim \<Rightarrow> read_result" where
  "ReadInQueue C s =
     (if Len (inq s) = 0 then WouldBlock
      else case Dequeue C (inq s) of
             Inl e \<Rightarrow> ReadPanic e
           | Inr (req, q) \<Rightarrow> Got req (s\<lparr>inq := q, log := log s @ [EvRead req]\<rparr>))"

text \<open>
  What other actors do to a queue that they share with a suspended actor: generators
  write requests to it and other processors read from it.  A read from an empty queue
  leaves it empty (the reader blocks).  A write that panics would end the program; the
  model leaves the queue as it is and goes on, which only adds runs.
\<close>

datatype interference = OtherWrite ReqInterface | OtherRead

fun interfere :: "Comparable \<Rightarrow> interference list \<Rightarrow> QueueInterface \<Rightarrow> QueueInterface" where
  "interfere C [] q = q"
| "interfere C (OtherWrite el # acts) q = interfere C acts (fst (Enqueue C el q))"
| "interfere C (OtherRead # acts) q =
     interfere C acts (case Dequeue C q of Inl e \<Rightarrow> q | Inr (el, q') \<Rightarrow> q')"

text \<open>
  Modelled from the spec: \<open>wait(d)\<close> suspends the actor for exactly \<open>d\<close> units of
  virtual time.  Other actors run meanwhile; \<open>env\<close> is what they do to the shared
  input queue until the actor resumes (\<open>[]\<close> when nobody touches it).
\<close>

definition Wait :: "Comparable \<Rightarrow> real \<Rightarrow> interference list \<Rightarrow> sim \<Rightarrow> sim" where
  "Wait C d env s =
     s\<lparr>clock := clock s + d, inq := interfere C env (inq s), log := log s @ [EvWait d]\<rparr>"

text \<open>
  Modelled from the spec: \<open>write_in_queue\<close> and \<open>write_out_queue\<close> enqueue on the
  actor's own input queue and on its output queue, and never suspend.
\<close>

definition WriteInQueue :: "Comparable \<Rightarrow> ReqInterface \<Rightarrow> sim \<Rightarrow> status \<times> sim" where
  "WriteInQueue C req s =
     (case Enqueue C req (inq s) of
        (q, Some e) \<Rightarrow> (Crashed e, s\<lparr>inq := q\<rparr>)
      | (q, None) \<Rightarrow> (Running, s\<lparr>inq := q, log := log s @ [EvWriteIn req]\<rparr>))"


text \<open>The call \<open>p.reqDrain.TerminateReq(req)\<close>, with an \<open>AllKeeper\<close> as drain.\<close>

definition drain_TerminateReq :: "ReqInterface \<Rightarrow> sim \<Rightarrow> sim" where
  "drain_TerminateReq req s =
     s\<lparr>keeper := TerminateReq (clock s) req (keeper s),
       log := log s @ [EvTerminate req (clock s)]\<rparr>"

section \<open>Run-to-completion and time-sharing processors\<close>


definition TS_body ::
  "Comparable \<Rightarrow> real \<Rightarrow> real \<Rightarrow> interference list \<Rightarrow> sim \<Rightarrow> status \<times> sim" where
  "TS_body C quantum ctxCost env s =
     (case ReadInQueue C s of
        WouldBlock \<Rightarrow> (BlockedOnRead, s)
      | ReadPanic e \<Rightarrow> (Crashed e, s)
      | Got req s1 \<Rightarrow>
          (if GetServiceTime req \<le> quantum then
             (let s2 = Wait C (GetServiceTime req + ctxCost) env s1
              in (Running, drain_TerminateReq req s2))
           else
             (let s2 = Wait C (quantum + ctxCost) env s1;
                  req' = SubServiceTime quantum req;
                  s3 = s2\<lparr>log := log s2 @ [EvSub quantum]\<rparr>
              in WriteInQueue C req' s3)))"

definition SrptTS_body ::
  "Comparable \<Rightarrow> real \<Rightarrow> real \<Rightarrow> interference list \<Rightarrow> sim \<Rightarrow> status \<times> sim" where
  "SrptTS_body C quantum ctxCost env s =
     (case ReadInQueue C s of
        WouldBlock \<Rightarrow> (BlockedOnRead, s)
      | ReadPanic e \<Rightarrow> (Crashed e, s)
      | Got req s1 \<Rightarrow>
          (if GetServiceTime req \<le> quantum then
             (let s2 = Wait C (GetServiceTime req + ctxCost) env s1
              in (Running, drain_TerminateReq req s2))
           else
             (let s2 = Wait C (quantum + ctxCost) env s1;
                  req' = SubServiceTime quantum req;
                  s3 = s2\<lparr>log := log s2 @ [EvSub quantum]\<rparr>
              in WriteInQueue C req' s3)))"


fun TS_Run ::
  "Comparable \<Rightarrow> real \<Rightarrow> real \<Rightarrow> interference list list \<Rightarrow> sim \<Rightarrow> status \<times> sim" where
  "TS_Run C quantum ctxCost [] s = (Running, s)"
| "TS_Run C quantum ctxCost (env # envs) s =
     (case TS_body C quantum ctxCost env s of
        (Running, s') \<Rightarrow> TS_Run C quantum ctxCost envs s'
      | (st, s') \<Rightarrow> (st, s'))"

fun SrptTS_Run ::
  "Comparable \<Rightarrow> real \<Rightarrow> real \<Rightarrow> interference list list \<Rightarrow> sim \<Rightarrow> status \<times> sim" where
  "SrptTS_Run C quantum ctxCost [] s = (Running, s)"
| "SrptTS_Run C quantum ctxCost (env # envs) s =
     (case SrptTS_body C quantum ctxCost env s of
        (Running, s') \<Rightarrow> SrptTS_Run C quantum ctxCost envs s'
      | (st, s') \<Rightarrow> (st, s'))"

section \<open>Bounded-buffer processors\<close>







section \<open>The processor-sharing processor\<close>

text \<open>
  \<open>reqList\<close> is the \<open>container/list\<close> of in-progress requests, front first.  \<open>curr\<close>
  is a pointer to a list element: nil, the element at a position of \<open>reqList\<close>, or an
  element that \<open>Remove\<close> has taken out of the list and that still carries its value.
  Elements are only appended at the back and only the element under \<open>curr\<close> is ever
  removed, so a position keeps designating the same element.
\<close>

datatype element_ptr = NilElement | Element nat | Removed ReqInterface

record PSProcessor =
  workerCount :: int
  count :: int
  reqList :: "ReqInterface list"
  curr :: element_ptr
  prevTime :: real



text \<open>
  The scan of \<open>getMinService\<close>: \<open>minS\<close> and \<open>minI\<close> are the loop variables, \<open>i\<close> is
  the position of the element \<open>e\<close>.  Each visited value is asserted to be a \<open>*Request\<close>.
\<close>

fun min_loop :: "real \<Rightarrow> nat \<Rightarrow> nat \<Rightarrow> ReqInterface list \<Rightarrow> panic + nat" where
  "min_loop minS minI i [] = Inr minI"
| "min_loop minS minI i (e # es) =
     (case e of
        PlainReq r \<Rightarrow>
          (let val = ServiceTime r
           in if val < minS then min_loop val i (Suc i) es
              else min_loop minS minI (Suc i) es)
      | _ \<Rightarrow> Inl TypeAssertion)"

definition getMinService :: "PSProcessor \<Rightarrow> panic + nat" where
  "getMinService p =
     (case reqList p of
        [] \<Rightarrow> Inl NilPointer
      | front # rest \<Rightarrow>
          (case front of
             PlainReq r \<Rightarrow> min_loop (ServiceTime r) 0 0 (reqList p)
           | _ \<Rightarrow> Inl TypeAssertion))"

text \<open>
  \<open>getFactor\<close>.  The quotient is the one of \<^typ>\<open>real\<close>; Go's differs from it only
  for \<open>count = 0\<close> with \<open>workerCount \<le> 0\<close>, where Go yields NaN or an infinity.
\<close>

definition getFactor :: "PSProcessor \<Rightarrow> real" where
  "getFactor p =
     (if workerCount p > count p then 1
      else real_of_int (workerCount p) / real_of_int (count p))"

text \<open>The loop of \<open>updateServiceTimes\<close> over the list elements.\<close>

fun sub_all :: "real \<Rightarrow> ReqInterface list \<Rightarrow> ReqInterface list" where
  "sub_all diff [] = []"
| "sub_all diff (req # rest) = SubServiceTime diff req # sub_all diff rest"

text \<open>\<open>updateServiceTimes\<close>, with \<open>now\<close> the value of \<open>engine.GetTime()\<close>.\<close>

definition updateServiceTimes :: "real \<Rightarrow> PSProcessor \<Rightarrow> PSProcessor" where
  "updateServiceTimes now p =
     (let currTime = now;
          diff = (currTime - prevTime p) * getFactor p;
          p1 = p\<lparr>prevTime := currTime\<rparr>
      in p1\<lparr>reqList := sub_all diff (reqList p1)\<rparr>)"

text \<open>
  The state of \<open>PSProcessor.Run\<close>: the processor, the loop variable \<open>d\<close>, the drain,
  the engine clock at the last resumption and the terminations so far, each with its
  virtual time.
\<close>

record ps_sim =
  proc :: PSProcessor
  next_d :: real
  ps_keeper :: AllKeeper
  ps_clock :: real
  terminated :: "(ReqInterface \<times> real) list"

text \<open>
  What \<open>WaitInterruptible\<close> returns: \<open>TimerExpired\<close> is \<open>intr = true\<close> (no request),
  \<open>Arrived newReq\<close> is \<open>intr = false\<close> with the request.
\<close>

datatype wakeup = TimerExpired | Arrived ReqInterface

definition remove_at :: "nat \<Rightarrow> 'a list \<Rightarrow> 'a list" where
  "remove_at i xs = take i xs @ drop (Suc i) xs"

text \<open>
  The \<open>if intr\<close> statement.  The position under \<open>curr\<close> is always within the list
  (lemma \<open>PS_wf_step\<close> below); the model panics otherwise.
\<close>

definition PS_dispatch ::
  "real \<Rightarrow> wakeup \<Rightarrow> PSProcessor \<times> AllKeeper \<times> (ReqInterface \<times> real) list
     \<Rightarrow> panic + PSProcessor \<times> AllKeeper \<times> (ReqInterface \<times> real) list" where
  "PS_dispatch now w pkt =
     (case pkt of (p, k, t) \<Rightarrow>
        (case w of
           TimerExpired \<Rightarrow>
             (case curr p of
                NilElement \<Rightarrow> Inl NilPointer
              | Element i \<Rightarrow>
                  (if i < length (reqList p)
                   then (let req = reqList p ! i
                         in Inr (p\<lparr>reqList := remove_at i (reqList p), curr := Removed req,
                                   count := count p - 1\<rparr>,
                                 TerminateReq now req k, t @ [(req, now)]))
                   else Inl NilPointer)
              | Removed req \<Rightarrow>
                  Inr (p\<lparr>count := count p - 1\<rparr>, TerminateReq now req k, t @ [(req, now)]))
         | Arrived newReq \<Rightarrow>
             Inr (p\<lparr>count := count p + 1, reqList := reqList p @ [newReq]\<rparr>, k, t)))"

text \<open>
  One iteration of the loop of \<open>PSProcessor.Run\<close>, resumed at time \<open>now\<close>.  The
  quotient that sets \<open>d\<close> is the one of \<^typ>\<open>real\<close>; Go's differs from it when the
  factor is zero, that is for \<open>workerCount = 0\<close>.
\<close>

definition PS_body :: "real \<times> wakeup \<Rightarrow> ps_sim \<Rightarrow> panic + ps_sim" where
  "PS_body inp st =
     (case inp of (now, w) \<Rightarrow>
        (let p1 = updateServiceTimes now (proc st)
         in case PS_dispatch now w (p1, ps_keeper st, terminated st) of
              Inl e \<Rightarrow> Inl e
            | Inr (p2, k, t) \<Rightarrow>
                (if count p2 > 0 then
                   (case getMinService p2 of
                      Inl e \<Rightarrow> Inl e
                    | Inr i \<Rightarrow>
                        (let p3 = p2\<lparr>curr := Element i\<rparr>
                         in Inr \<lparr>proc = p3,
                                 next_d = GetServiceTime (reqList p3 ! i) / getFactor p3,
                                 ps_keeper = k, ps_clock = now, terminated = t\<rparr>))
                 else Inr \<lparr>proc = p2, next_d = - 1, ps_keeper = k, ps_clock = now,
                           terminated = t\<rparr>)))"



text \<open>
  Modelled from the spec: \<open>wait_interruptible(d)\<close>, called at time \<open>t0\<close>, resumes the
  actor either when the timer expires, exactly \<open>d\<close> later and only if \<open>d\<close> is not the
  negative sentinel, or when a request arrives, no later than the timer would expire.
\<close>

definition WaitInterruptible_ok :: "real \<Rightarrow> real \<Rightarrow> real \<times> wakeup \<Rightarrow> bool" where
  "WaitInterruptible_ok t0 d inp =
     (case inp of
        (now, TimerExpired) \<Rightarrow> 0 \<le> d \<and> now = t0 + d
      | (now, Arrived newReq) \<Rightarrow> t0 \<le> now \<and> (d < 0 \<or> now \<le> t0 + d))"


text \<open>
  Every arriving request is one that \<open>SimpleReqCreator.NewRequest\<close> has just made, at
  the time of its arrival, with a service time that is not negative.
\<close>

fun arrival_fresh :: "real \<times> wakeup \<Rightarrow> bool" where
  "arrival_fresh (now, TimerExpired) = True"
| "arrival_fresh (now, Arrived newReq) =
     (0 \<le> GetServiceTime newReq \<and> newReq = NewRequest now (GetServiceTime newReq))"


section \<open>The order and the invariant of the heap\<close>

text \<open>
  \<open>lt_el\<close> is \<open>Less\<close> on the elements themselves, \<open>le_el x y\<close> says that \<open>y\<close> is not
  less than \<open>x\<close>.  \<open>parent\<close> is the position that \<open>up\<close> compares with.
\<close>

definition lt_el :: "Comparable \<Rightarrow> ReqInterface \<Rightarrow> ReqInterface \<Rightarrow> bool" where
  "lt_el C x y =
     (if GetCmpVal C x = GetCmpVal C y then GetInitTime C x < GetInitTime C y
      else GetCmpVal C x < GetCmpVal C y)"

definition le_el :: "Comparable \<Rightarrow> ReqInterface \<Rightarrow> ReqInterface \<Rightarrow> bool" where
  "le_el C x y = (\<not> lt_el C y x)"

definition parent :: "nat \<Rightarrow> nat" where
  "parent k = (k - 1) div 2"

text \<open>
  The first \<open>n\<close> positions of \<open>h\<close> form a heap: no element is less than its parent.
  \<open>heap_except_up\<close> and \<open>heap_except_down\<close> are the loop invariants of \<open>up\<close> and
  \<open>down\<close>: the heap condition may fail between \<open>j\<close> and its parent, respectively
  between \<open>i\<close> and its children, and holds across that position.
\<close>

definition is_heap_upto :: "Comparable \<Rightarrow> ReqInterface list \<Rightarrow> nat \<Rightarrow> bool" where
  "is_heap_upto C h n = (\<forall>k. 0 < k \<and> k < n \<longrightarrow> le_el C (h ! parent k) (h ! k))"

definition heap_except_up :: "Comparable \<Rightarrow> ReqInterface list \<Rightarrow> nat \<Rightarrow> nat \<Rightarrow> bool" where
  "heap_except_up C h n j =
     (\<forall>k. 0 < k \<and> k < n \<longrightarrow>
        (k \<noteq> j \<longrightarrow> le_el C (h ! parent k) (h ! k)) \<and>
        (parent k = j \<and> 0 < j \<longrightarrow> le_el C (h ! parent j) (h ! k)))"

definition heap_except_down :: "Comparable \<Rightarrow> ReqInterface list \<Rightarrow> nat \<Rightarrow> nat \<Rightarrow> bool" where
  "heap_except_down C h n i =
     (\<forall>k. 0 < k \<and> k < n \<longrightarrow>
        (parent k \<noteq> i \<longrightarrow> le_el C (h ! parent k) (h ! k)) \<and>
        (parent k = i \<and> 0 < i \<longrightarrow> le_el C (h ! parent i) (h ! k)))"

text \<open>
  The queues that calls of \<open>Enqueue\<close> and \<open>Dequeue\<close> produce from the empty one; the
  calls of \<open>Enqueue\<close> are those that do not panic.
\<close>

inductive pq_reachable :: "Comparable \<Rightarrow> ReqInterface list \<Rightarrow> bool" for C where
  new: "pq_reachable C NewPQueue"
| enq: "pq_reachable C pq \<Longrightarrow> implements C el \<Longrightarrow> pq_reachable C (fst (PQueue_Enqueue C el pq))"
| deq: "pq_reachable C pq \<Longrightarrow> PQueue_Dequeue C pq = Inr (el, pq') \<Longrightarrow> pq_reachable C pq'"

section \<open>Invariants of the processors\<close>

text \<open>Whether a request is a \<open>*ColoredReq\<close>: the type test of the bounded processors.\<close>

fun isColoredReq :: "ReqInterface \<Rightarrow> bool" where
  "isColoredReq (ColoredReq r color) = True"
| "isColoredReq el = False"


fun isPlainReq :: "ReqInterface \<Rightarrow> bool" where
  "isPlainReq (PlainReq r) = True"
| "isPlainReq el = False"

text \<open>
  The shape of the state of \<open>PSProcessor.Run\<close> between two iterations: \<open>count\<close> is
  the length of the list, \<open>prevTime\<close> is the time of the last resumption, all requests
  are \<open>*Request\<close>s, and while the list is not empty \<open>curr\<close> points at a request of
  least remaining service time and \<open>d\<close> is that time divided by the factor.
\<close>

definition PS_wf :: "ps_sim \<Rightarrow> bool" where
  "PS_wf st =
     (count (proc st) = int (length (reqList (proc st)))
      \<and> prevTime (proc st) = ps_clock st
      \<and> list_all isPlainReq (reqList (proc st))
      \<and> (if reqList (proc st) = [] then next_d st = - 1
          else (\<exists>i. curr (proc st) = Element i \<and> i < length (reqList (proc st))
                 \<and> (\<forall>r \<in> set (reqList (proc st)).
                        GetServiceTime (reqList (proc st) ! i) \<le> GetServiceTime r)
                 \<and> next_d st = GetServiceTime (reqList (proc st) ! i) / getFactor (proc st))))"








section \<open>Example inputs\<close>

definition ps_example :: PSProcessor where
  "ps_example =
     \<lparr>workerCount = 1, count = 2, reqList = [NewRequest 0 10, NewRequest 1 6],
      curr = Element 1, prevTime = 2\<rparr>"

text \<open>
  The scenario of a single request with service time \<open>25\<close>, created at time \<open>t\<close>, on
  the FIFO input queue of a processor started at time \<open>t0\<close>, and the state in which
  the request has been served with quantum \<open>10\<close> and context-switch cost \<open>1\<close>.
\<close>

definition ts_start :: "real \<Rightarrow> real \<Rightarrow> QueueInterface \<Rightarrow> sim" where
  "ts_start t0 t oq =
     \<lparr>clock = t0,
      inq = Queue [PlainReq \<lparr>InitTime = t, ServiceTime = 25, OriginalServiceTime = 25\<rparr>],
      outq = oq, keeper = \<lparr>items = [], name = ''Main Stats'', stolenCount = 0\<rparr>, log = []\<rparr>"

definition ts_end :: "real \<Rightarrow> real \<Rightarrow> QueueInterface \<Rightarrow> sim" where
  "ts_end t0 t oq =
     \<lparr>clock = t0 + 28, inq = Queue [], outq = oq,
      keeper = \<lparr>items = [\<lparr>RD_ServiceTime = 25, Delay = t0 + 28 - t\<rparr>], name = ''Main Stats'', stolenCount = 0\<rparr>,
      log = [EvRead (PlainReq \<lparr>InitTime = t, ServiceTime = 25, OriginalServiceTime = 25\<rparr>),
             EvWait 11, EvSub 10,
             EvWriteIn (PlainReq \<lparr>InitTime = t, ServiceTime = 15, OriginalServiceTime = 25\<rparr>),
             EvRead (PlainReq \<lparr>InitTime = t, ServiceTime = 15, OriginalServiceTime = 25\<rparr>),
             EvWait 11, EvSub 10,
             EvWriteIn (PlainReq \<lparr>InitTime = t, ServiceTime = 5, OriginalServiceTime = 25\<rparr>),
             EvRead (PlainReq \<lparr>InitTime = t, ServiceTime = 5, OriginalServiceTime = 25\<rparr>),
             EvWait 6,
             EvTerminate (PlainReq \<lparr>InitTime = t, ServiceTime = 5, OriginalServiceTime = 25\<rparr>)
               (t0 + 28)]\<rparr>"

text \<open>
  A method table in which every request is comparable by its remaining service time and
  ties are broken by the creation time, as the specification describes the SRPT usage.
\<close>

definition Comparable_example :: Comparable where
  "Comparable_example =
     \<lparr>implements = (\<lambda>el. True), GetCmpVal = GetServiceTime,
      GetInitTime = (\<lambda>el. InitTime (base el))\<rparr>"


text \<open>A priority queue built by three calls of \<open>Enqueue\<close>.\<close>

definition pq_example :: "ReqInterface list" where
  "pq_example =
     fst (PQueue_Enqueue Comparable_example
            (PlainReq \<lparr>InitTime = 1, ServiceTime = 3, OriginalServiceTime = 3\<rparr>)
       (fst (PQueue_Enqueue Comparable_example
            (PlainReq \<lparr>InitTime = 2, ServiceTime = 3, OriginalServiceTime = 3\<rparr>)
       (fst (PQueue_Enqueue Comparable_example
            (PlainReq \<lparr>InitTime = 0, ServiceTime = 5, OriginalServiceTime = 5\<rparr>)
          NewPQueue)))))"





section \<open>Updating the remaining service times\<close>

lemma sub_all_map: "sub_all diff rs = map (SubServiceTime diff) rs"
  by (induction rs) simp_all

lemma SubServiceTime_zero: "SubServiceTime 0 el = el"
  by (cases el) (simp_all add: SubServiceTime_def)

lemma getFactor_min:
  assumes "0 < count p"
  shows "getFactor p = min 1 (real_of_int (workerCount p) / real_of_int (count p))"
proof (cases "workerCount p > count p")
  case True
  with assms have "1 \<le> real_of_int (workerCount p) / real_of_int (count p)"
    by (simp add: le_divide_eq)
  with True show ?thesis by (simp add: getFactor_def min_def)
next
  case False
  with assms have "real_of_int (workerCount p) / real_of_int (count p) \<le> 1"
    by (simp add: divide_le_eq)
  with False show ?thesis by (simp add: getFactor_def min_def)
qed

lemma getFactor_cases:
  assumes "workerCount p = count p \<longrightarrow> count p \<noteq> 0"
  shows "getFactor p = (if count p \<le> workerCount p then 1
                        else real_of_int (workerCount p) / real_of_int (count p))"
  using assms by (auto simp: getFactor_def)

text \<open>
  C1.  \<open>updateServiceTimes\<close> sets \<open>prevTime\<close> to the current time and replaces every
  request of the in-progress list by the same request with its remaining service time
  reduced by \<open>(now - prevTime) * f\<close>; nothing else changes, neither in the requests nor
  in the processor.  The factor \<open>f\<close> is \<open>min 1 (workerCount / count)\<close> whenever a
  request is counted, and it is \<open>1\<close> for \<open>workerCount \<ge> count\<close> and
  \<open>workerCount / count\<close> otherwise, except in the state \<open>workerCount = count = 0\<close>,
  where the code divides zero by zero.
\<close>

theorem C1_updateServiceTimes:
  "updateServiceTimes now p =
     p\<lparr>prevTime := now,
       reqList := map (map_base (\<lambda>r. r\<lparr>ServiceTime :=
                          ServiceTime r - (now - prevTime p) * getFactor p\<rparr>)) (reqList p)\<rparr>
   \<and> (0 < count p \<longrightarrow>
        getFactor p = min 1 (real_of_int (workerCount p) / real_of_int (count p)))
   \<and> ((workerCount p = count p \<longrightarrow> count p \<noteq> 0) \<longrightarrow>
        getFactor p = (if count p \<le> workerCount p then 1
                       else real_of_int (workerCount p) / real_of_int (count p)))"
proof -
  have "SubServiceTime d = map_base (\<lambda>r. r\<lparr>ServiceTime := ServiceTime r - d\<rparr>)" for d
    by (rule ext) (simp add: SubServiceTime_def)
  then have "updateServiceTimes now p =
     p\<lparr>prevTime := now,
       reqList := map (map_base (\<lambda>r. r\<lparr>ServiceTime :=
                          ServiceTime r - (now - prevTime p) * getFactor p\<rparr>)) (reqList p)\<rparr>"
    by (simp add: updateServiceTimes_def Let_def sub_all_map)
  then show ?thesis
    using getFactor_min [of p] getFactor_cases [of p] by blast
qed

theorem C1_updateServiceTimes_witness:
  "0 < count ps_example
   \<and> workerCount ps_example \<noteq> count ps_example
   \<and> getFactor ps_example = min 1 (1 / 2)
   \<and> updateServiceTimes 4 ps_example =
       \<lparr>workerCount = 1, count = 2,
        reqList = [PlainReq \<lparr>InitTime = 0, ServiceTime = 9, OriginalServiceTime = 10\<rparr>,
                   PlainReq \<lparr>InitTime = 1, ServiceTime = 5, OriginalServiceTime = 6\<rparr>],
        curr = Element 1, prevTime = 4\<rparr>"
  using C1_updateServiceTimes [of 4 ps_example]
  by (simp add: ps_example_def NewRequest_def getFactor_def)

text \<open>
  C8.  Right after a call of \<open>updateServiceTimes\<close> at time \<open>now\<close>, a second call at
  the same time computes the difference zero and returns the processor unchanged.
\<close>

theorem C8_update_idempotent:
  "(now - prevTime (updateServiceTimes now p)) * getFactor (updateServiceTimes now p) = 0
   \<and> updateServiceTimes now (updateServiceTimes now p) = updateServiceTimes now p"
  by (simp add: updateServiceTimes_def Let_def sub_all_map SubServiceTime_zero)

section \<open>Statistics\<close>

text \<open>
  C6.  For the single recorded delay \<open>2\<close>, \<open>std\<close> returns \<open>sqrt 2\<close>, while the standard
  deviation of that sample is \<open>0\<close>: \<open>std\<close> subtracts the mean, not its square.  The
  histogram's \<open>stddev\<close> returns \<open>0\<close> for the same sample.
\<close>

theorem C6_std_failing:
  "std \<lparr>items = [\<lparr>RD_ServiceTime = 1, Delay = 2\<rparr>], name = ''Main Stats'', stolenCount = 0\<rparr>
     = sqrt 2
   \<and> spec_std (map Delay [\<lparr>RD_ServiceTime = 1, Delay = 2\<rparr>]) = 0
   \<and> std \<lparr>items = [\<lparr>RD_ServiceTime = 1, Delay = 2\<rparr>], name = ''Main Stats'', stolenCount = 0\<rparr>
       \<noteq> spec_std (map Delay [\<lparr>RD_ServiceTime = 1, Delay = 2\<rparr>])
   \<and> (\<exists>hdr. addSample 2 newHistogram = Inr hdr \<and> stddev hdr = 0)"
  by (simp add: std_def avg_def spec_std_def addSample_def newHistogram_def go_int_def
        bUCKETCOUNT_def gRANULARITY_def stddev_def histogram_avg_def Let_def)

section \<open>Time sharing\<close>

lemma SrptTS_body_eq: "SrptTS_body C quantum ctxCost env s = TS_body C quantum ctxCost env s"
  by (simp add: SrptTS_body_def TS_body_def)

text \<open>
  C7.  From the same state, with the same quantum, context-switch cost and environment,
  \<open>SrptTSProcessor.Run\<close> and \<open>TSProcessor.Run\<close> end in the same state with the same
  status; the state holds the input queue, the drain, the clock and the log of reads,
  waits, subtractions, re-enqueues and terminations.
\<close>

theorem C7_SrptTS_is_TS:
  "SrptTS_Run C quantum ctxCost envs s = TS_Run C quantum ctxCost envs s"
  by (induction envs arbitrary: s)
     (simp_all add: SrptTS_body_eq split: prod.splits status.splits)

text \<open>
  C3.  A time-sharing processor with quantum \<open>10\<close> and context-switch cost \<open>1\<close>, alone
  on a FIFO queue that holds one request with service time \<open>25\<close>, started at time
  \<open>t0\<close>: three iterations read the request three times, wait \<open>11\<close>, \<open>11\<close> and \<open>6\<close>,
  write it back to the input queue twice and terminate it at \<open>t0 + 28\<close>; a fourth
  iteration finds the queue empty and blocks.
\<close>

theorem C3_TS_scenario:
  "TS_Run C 10 1 [[], [], []] (ts_start t0 t oq) = (Running, ts_end t0 t oq)
   \<and> TS_Run C 10 1 ([] # [] # [] # env # envs) (ts_start t0 t oq)
       = (BlockedOnRead, ts_end t0 t oq)
   \<and> clock (ts_end t0 t oq) = clock (ts_start t0 t oq) + 28
   \<and> length (filter is_EvRead (log (ts_end t0 t oq))) = 3
   \<and> length (filter is_EvWriteIn (log (ts_end t0 t oq))) = 2"
  by (simp add: ts_start_def ts_end_def TS_body_def ReadInQueue_def Wait_def
        WriteInQueue_def drain_TerminateReq_def TerminateReq_def GetServiceTime_def
        SubServiceTime_def GetDelay_def GetOriginalServiceTime_def Queue_Enqueue_def Let_def)

section \<open>The priority queue\<close>

lemma mset_Swap: "i < length h \<Longrightarrow> j < length h \<Longrightarrow> mset (Swap h i j) = mset h"
  by (simp add: Swap_def mset_swap)

lemma length_Swap: "length (Swap h i j) = length h"
  by (simp add: Swap_def)

lemma mset_up: "j < length h \<Longrightarrow> mset (up C h j) = mset h"
proof (induction C h j rule: up.induct)
  case (1 C h j)
  show ?case
  proof (cases "(j - 1) div 2 = j \<or> \<not> Less C h j ((j - 1) div 2)")
    case True
    then show ?thesis by (subst up.simps) (simp add: Let_def)
  next
    case False
    have lt: "(j - 1) div 2 < length h" using "1.prems" by linarith
    have "mset (up C (Swap h ((j - 1) div 2) j) ((j - 1) div 2)) = mset (Swap h ((j - 1) div 2) j)"
      using "1.IH" [OF refl] False lt by (simp add: length_Swap)
    with False lt "1.prems" show ?thesis
      by (subst up.simps) (simp add: Let_def mset_Swap)
  qed
qed

lemma mset_heap_Push: "mset (heap_Push C h x) = mset h + {#x#}"
  by (simp add: heap_Push_def Let_def mset_up)

text \<open>
  C9.  \<open>PQueue.Enqueue\<close> of an element that does not implement \<open>Comparable\<close> panics
  with the message that ends in the element's type and leaves the queue as it was;
  \<open>Enqueue\<close> of an element that implements it does not panic and the queue then holds
  the old elements and the new one.
\<close>

theorem C9_Enqueue_failfast:
  "(\<not> implements C el \<longrightarrow>
      PQueue_Enqueue C el pq =
        (pq, Some (Message
           (''Element enqueued to PQueue does not implement blocks.Comparable interface: ''
            @ typeName el))))
   \<and> (implements C el \<longrightarrow>
        snd (PQueue_Enqueue C el pq) = None
        \<and> mset (fst (PQueue_Enqueue C el pq)) = mset pq + {#el#})"
  by (simp add: PQueue_Enqueue_def mset_heap_Push)

theorem C9_Enqueue_failfast_witness:
  "\<not> implements (Comparable_example\<lparr>implements := (\<lambda>el. isColoredReq el)\<rparr>) (NewRequest 0 3)
   \<and> PQueue_Enqueue (Comparable_example\<lparr>implements := (\<lambda>el. isColoredReq el)\<rparr>)
         (NewRequest 0 3) [ColoredReq \<lparr>InitTime = 0, ServiceTime = 1, OriginalServiceTime = 1\<rparr> 0]
       = ([ColoredReq \<lparr>InitTime = 0, ServiceTime = 1, OriginalServiceTime = 1\<rparr> 0],
          Some (Message
            ''Element enqueued to PQueue does not implement blocks.Comparable interface: *blocks.Request''))
   \<and> implements Comparable_example (NewRequest 0 3)
   \<and> snd (PQueue_Enqueue Comparable_example (NewRequest 0 3) [NewRequest 0 5]) = None
   \<and> mset (fst (PQueue_Enqueue Comparable_example (NewRequest 0 3) [NewRequest 0 5]))
       = {#NewRequest 0 5, NewRequest 0 3#}"
  using C9_Enqueue_failfast [of "Comparable_example\<lparr>implements := (\<lambda>el. isColoredReq el)\<rparr>"
          "NewRequest 0 3" "[ColoredReq \<lparr>InitTime = 0, ServiceTime = 1, OriginalServiceTime = 1\<rparr> 0]"]
        C9_Enqueue_failfast [of Comparable_example "NewRequest 0 3" "[NewRequest 0 5]"]
  by (simp add: Comparable_example_def NewRequest_def)

section \<open>The bounded-buffer processors\<close>






section \<open>The heap order of the priority queue\<close>

lemma le_el_refl: "le_el C x x"
  by (simp add: le_el_def lt_el_def)

lemma le_el_trans: "le_el C x y \<Longrightarrow> le_el C y z \<Longrightarrow> le_el C x z"
  by (auto simp: le_el_def lt_el_def split: if_splits)

lemma lt_el_le: "lt_el C x y \<Longrightarrow> le_el C x y"
  by (auto simp: le_el_def lt_el_def split: if_splits)

lemma Less_lt_el: "Less C h i j = lt_el C (h ! i) (h ! j)"
  by (simp add: Less_def lt_el_def)

lemma parent_less: "0 < k \<Longrightarrow> parent k < k"
  by (simp add: parent_def)

lemma parent_children: "0 < k \<Longrightarrow> parent k = i \<longleftrightarrow> k = 2 * i + 1 \<or> k = 2 * i + 2"
  by (auto simp: parent_def)

lemma nth_Swap:
  "i < length h \<Longrightarrow> j < length h \<Longrightarrow>
   Swap h i j ! k = (if k = j then h ! i else if k = i then h ! j else h ! k)"
  by (auto simp: Swap_def nth_list_update)

lemma heap_min:
  assumes "is_heap_upto C h n" and "k < n"
  shows "le_el C (h ! 0) (h ! k)"
  using assms(2)
proof (induction k rule: less_induct)
  case (less k)
  show ?case
  proof (cases "k = 0")
    case True
    then show ?thesis by (simp add: le_el_refl)
  next
    case False
    then have pk: "parent k < k" by (simp add: parent_less)
    with less have "le_el C (h ! 0) (h ! parent k)" by simp
    moreover have "le_el C (h ! parent k) (h ! k)"
      using assms(1) False less.prems by (simp add: is_heap_upto_def)
    ultimately show ?thesis by (rule le_el_trans)
  qed
qed

lemma up_heap:
  "heap_except_up C h (length h) j \<Longrightarrow> j < length h \<Longrightarrow> is_heap_upto C (up C h j) (length h)"
proof (induction C h j rule: up.induct)
  case (1 C h j)
  let ?i = "(j - 1) div 2"
  show ?case
  proof (cases "?i = j \<or> \<not> Less C h j ?i")
    case True
    have "is_heap_upto C h (length h)"
      unfolding is_heap_upto_def
    proof (intro allI impI)
      fix k assume k: "0 < k \<and> k < length h"
      show "le_el C (h ! parent k) (h ! k)"
      proof (cases "k = j")
        case False
        with "1.prems"(1) k show ?thesis by (simp add: heap_except_up_def)
      next
        case kj: True
        with k have "?i \<noteq> j" by linarith
        with True have "\<not> Less C h j ?i" by simp
        with kj show ?thesis by (simp add: Less_lt_el le_el_def parent_def)
      qed
    qed
    with True show ?thesis by (subst up.simps) (simp add: Let_def)
  next
    case False
    then have ij: "?i \<noteq> j" and lt: "lt_el C (h ! j) (h ! ?i)"
      by (simp_all add: Less_lt_el)
    have j0: "0 < j" using ij by (cases j) simp_all
    have pj: "parent j = ?i" by (simp add: parent_def)
    have i_lt: "?i < j" using j0 parent_less [of j] by (simp add: parent_def)
    have il: "?i < length h" using i_lt "1.prems"(2) by simp
    let ?h' = "Swap h ?i j"
    have len: "length ?h' = length h" by (simp add: Swap_def)
    have inv: "heap_except_up C ?h' (length ?h') ?i"
      unfolding heap_except_up_def len
    proof (intro allI impI conjI)
      fix k assume k: "0 < k \<and> k < length h" and ki: "k \<noteq> ?i"
      have pk: "parent k < k" using k by (simp add: parent_less)
      show "le_el C (?h' ! parent k) (?h' ! k)"
      proof (cases "k = j")
        case True
        then show ?thesis using lt il "1.prems"(2) ij pj
          by (simp add: nth_Swap lt_el_le)
      next
        case kj: False
        have old: "le_el C (h ! parent k) (h ! k)"
          using "1.prems"(1) k kj by (simp add: heap_except_up_def)
        show ?thesis
        proof (cases "parent k = ?i")
          case True
          then have "le_el C (h ! ?i) (h ! k)" using old by simp
          with lt have "le_el C (h ! j) (h ! k)" by (meson le_el_trans lt_el_le)
          then show ?thesis using True kj ki il "1.prems"(2) ij by (simp add: nth_Swap)
        next
          case pki: False
          show ?thesis
          proof (cases "parent k = j")
            case True
            then have "le_el C (h ! parent j) (h ! k)"
              using "1.prems"(1) k j0 by (simp add: heap_except_up_def)
            then show ?thesis using True kj ki il "1.prems"(2) pj ij
              by (simp add: nth_Swap)
          next
            case False
            then show ?thesis using old pki kj ki il "1.prems"(2) ij
              by (simp add: nth_Swap)
          qed
        qed
      qed
    next
      fix k assume k: "0 < k \<and> k < length h" and c: "parent k = ?i \<and> 0 < ?i"
      have pi_lt: "parent ?i < ?i" using c by (simp add: parent_less)
      have hp: "?h' ! parent ?i = h ! parent ?i"
        using pi_lt i_lt il "1.prems"(2) by (simp add: nth_Swap)
      have a: "le_el C (h ! parent ?i) (h ! ?i)"
        using "1.prems"(1) c il ij by (simp add: heap_except_up_def)
      show "le_el C (?h' ! parent ?i) (?h' ! k)"
      proof (cases "k = j")
        case True
        then show ?thesis using hp a il "1.prems"(2) ij by (simp add: nth_Swap)
      next
        case False
        then have "le_el C (h ! ?i) (h ! k)"
          using "1.prems"(1) k c by (auto simp: heap_except_up_def)
        with a have "le_el C (h ! parent ?i) (h ! k)" by (rule le_el_trans)
        moreover have "k \<noteq> ?i" using c k parent_less [of k] by auto
        ultimately show ?thesis using hp False il "1.prems"(2) ij by (simp add: nth_Swap)
      qed
    qed
    have "is_heap_upto C (up C ?h' ?i) (length ?h')"
      using "1.IH" [OF refl _ inv] False il len by simp
    with False len show ?thesis by (subst up.simps) (simp add: Let_def)
  qed
qed

lemma heap_Push_heap:
  assumes "is_heap_upto C h (length h)"
  shows "is_heap_upto C (heap_Push C h x) (Suc (length h))"
proof -
  have "heap_except_up C (h @ [x]) (length (h @ [x])) (length h)"
    unfolding heap_except_up_def
  proof (intro allI impI conjI)
    fix k assume k: "0 < k \<and> k < length (h @ [x])" and "k \<noteq> length h"
    then have "k < length h" by simp
    moreover from this k have "parent k < length h" using parent_less [of k] by simp
    ultimately show "le_el C ((h @ [x]) ! parent k) ((h @ [x]) ! k)"
      using assms k by (simp add: nth_append is_heap_upto_def)
  next
    fix k assume k: "0 < k \<and> k < length (h @ [x])" and "parent k = length h \<and> 0 < length h"
    then have False using parent_less [of k] by simp
    then show "le_el C ((h @ [x]) ! parent (length h)) ((h @ [x]) ! k)" ..
  qed
  then have "is_heap_upto C (up C (h @ [x]) (length h)) (length (h @ [x]))"
    by (rule up_heap) simp
  then show ?thesis by (simp add: heap_Push_def Let_def)
qed

text \<open>One step of \<open>down\<close>: the child \<open>j\<close> it selects and what holds of it.\<close>

lemma down_step_facts:
  assumes "\<not> n \<le> 2 * i + 1"
    and "j = (if 2 * i + 1 + 1 < n \<and> Less C h (2 * i + 1 + 1) (2 * i + 1) then 2 * i + 1 + 1 else 2 * i + 1)"
  shows "j < n" and "parent j = i" and "i < j" and "0 < j"
    and "\<And>k. 0 < k \<Longrightarrow> k < n \<Longrightarrow> parent k = i \<Longrightarrow> le_el C (h ! j) (h ! k)"
proof -
  show jn: "j < n" using assms by (simp split: if_splits)
  show pj: "parent j = i" using assms(2) by (simp add: parent_def split: if_splits)
  show "i < j" using assms(2) by (simp split: if_splits)
  show "0 < j" using assms(2) by (simp split: if_splits)
  fix k assume k: "0 < k" "k < n" "parent k = i"
  then have kk: "k = 2 * i + 1 \<or> k = 2 * i + 2" by (simp add: parent_children)
  show "le_el C (h ! j) (h ! k)"
  proof (cases "k = j")
    case True
    then show ?thesis by (simp add: le_el_refl)
  next
    case False
    show ?thesis
    proof (cases "2 * i + 1 + 1 < n \<and> Less C h (2 * i + 1 + 1) (2 * i + 1)")
      case True
      with assms(2) have "j = 2 * i + 2" by simp
      with kk False have "k = 2 * i + 1" by simp
      with True \<open>j = 2 * i + 2\<close> show ?thesis by (simp add: Less_lt_el lt_el_le)
    next
      case F: False
      with assms(2) have "j = 2 * i + 1" by simp
      with kk False have k2: "k = 2 * i + 2" by simp
      with k(2) F have "\<not> Less C h (2 * i + 1 + 1) (2 * i + 1)" by simp
      with k2 \<open>j = 2 * i + 1\<close> show ?thesis by (simp add: Less_lt_el le_el_def)
    qed
  qed
qed

lemma down_step:
  assumes "\<not> n \<le> 2 * i + 1"
    and "j = (if 2 * i + 1 + 1 < n \<and> Less C h (2 * i + 1 + 1) (2 * i + 1) then 2 * i + 1 + 1 else 2 * i + 1)"
  shows "down C h i n = (if \<not> Less C h j i then h else down C (Swap h i j) j n)"
  by (subst down.simps) (simp only: Let_def assms(2) [symmetric] assms(1) if_False)

lemma down_stop: "n \<le> 2 * i + 1 \<Longrightarrow> down C h i n = h"
  by (subst down.simps) (simp only: Let_def if_True)

lemma down_props:
  "n \<le> length h \<Longrightarrow>
   length (down C h i n) = length h \<and> mset (down C h i n) = mset h
   \<and> (\<forall>k. n \<le> k \<longrightarrow> down C h i n ! k = h ! k)"
proof (induction C h i n rule: down.induct)
  case (1 C h i n)
  show ?case
  proof (cases "n \<le> 2 * i + 1")
    case True
    then show ?thesis by (simp add: down_stop)
  next
    case False
    define j where "j = (if 2 * i + 1 + 1 < n \<and> Less C h (2 * i + 1 + 1) (2 * i + 1) then 2 * i + 1 + 1 else 2 * i + 1)"
    note f = down_step_facts [OF False j_def]
    show ?thesis
    proof (cases "Less C h j i")
      case F: False
      have "down C h i n = h"
        using down_step [OF False j_def] F by simp
      then show ?thesis by simp
    next
      case True
      have eq: "down C h i n = down C (Swap h i j) j n"
        using down_step [OF False j_def] True by simp
      have ih: "length (down C (Swap h i j) j n) = length (Swap h i j)
            \<and> mset (down C (Swap h i j) j n) = mset (Swap h i j)
            \<and> (\<forall>k. n \<le> k \<longrightarrow> down C (Swap h i j) j n ! k = Swap h i j ! k)"
        using "1.IH" [OF refl False j_def] True "1.prems" by (simp add: length_Swap)
      have jl: "j < length h" and il: "i < length h" using f(1,3) "1.prems" by simp_all
      have "Swap h i j ! k = h ! k" if "n \<le> k" for k
        using that f(1,3) il jl by (simp add: nth_Swap)
      then show ?thesis using ih eq jl il
        by (simp add: length_Swap mset_Swap)
    qed
  qed
qed

lemma down_heap:
  "heap_except_down C h n i \<Longrightarrow> n \<le> length h \<Longrightarrow> is_heap_upto C (down C h i n) n"
proof (induction C h i n rule: down.induct)
  case (1 C h i n)
  show ?case
  proof (cases "n \<le> 2 * i + 1")
    case True
    have "is_heap_upto C h n"
      unfolding is_heap_upto_def
    proof (intro allI impI)
      fix k assume k: "0 < k \<and> k < n"
      then have "parent k \<noteq> i" using True by (auto simp: parent_children)
      with "1.prems"(1) k show "le_el C (h ! parent k) (h ! k)"
        by (simp add: heap_except_down_def)
    qed
    with True show ?thesis by (simp add: down_stop)
  next
    case False
    define j where "j = (if 2 * i + 1 + 1 < n \<and> Less C h (2 * i + 1 + 1) (2 * i + 1) then 2 * i + 1 + 1 else 2 * i + 1)"
    note f = down_step_facts [OF False j_def]
    have jl: "j < length h" and il: "i < length h" using f(1,3) "1.prems" by simp_all
    show ?thesis
    proof (cases "Less C h j i")
      case F: False
      then have ij: "le_el C (h ! i) (h ! j)" by (simp add: Less_lt_el le_el_def)
      have "is_heap_upto C h n"
        unfolding is_heap_upto_def
      proof (intro allI impI)
        fix k assume k: "0 < k \<and> k < n"
        show "le_el C (h ! parent k) (h ! k)"
        proof (cases "parent k = i")
          case True
          with k f(5) have "le_el C (h ! j) (h ! k)" by simp
          with ij True show ?thesis by (auto intro: le_el_trans)
        next
          case False
          with "1.prems"(1) k show ?thesis by (simp add: heap_except_down_def)
        qed
      qed
      moreover have "down C h i n = h"
        using down_step [OF False j_def] F by simp
      ultimately show ?thesis by simp
    next
      case True
      then have lt: "lt_el C (h ! j) (h ! i)" by (simp add: Less_lt_el)
      have eq: "down C h i n = down C (Swap h i j) j n"
        using down_step [OF False j_def] True by simp
      let ?h' = "Swap h i j"
      have inv: "heap_except_down C ?h' n j"
        unfolding heap_except_down_def
      proof (intro allI impI conjI)
        fix k assume k: "0 < k \<and> k < n" and pk: "parent k \<noteq> j"
        have kl: "k < length h" using k "1.prems"(2) by simp
        have pkk: "parent k < k" using k by (simp add: parent_less)
        show "le_el C (?h' ! parent k) (?h' ! k)"
        proof (cases "parent k = i")
          case True
          then have "le_el C (h ! j) (h ! k)" using f(5) k by simp
          moreover have "k \<noteq> i" using True pkk by simp
          ultimately show ?thesis using True lt il jl f(3)
            by (auto simp: nth_Swap lt_el_le)
        next
          case npi: False
          have old: "le_el C (h ! parent k) (h ! k)"
            using "1.prems"(1) k npi by (simp add: heap_except_down_def)
          have kj: "k \<noteq> j" using npi f(2) by auto
          show ?thesis
          proof (cases "k = i")
            case True
            then have i0: "0 < i" using k by simp
            have "le_el C (h ! parent i) (h ! j)"
              using "1.prems"(1) f(1,2,4) i0 by (simp add: heap_except_down_def)
            then show ?thesis using True pk npi il jl kj by (simp add: nth_Swap)
          next
            case False
            then show ?thesis using old pk npi il jl kj by (simp add: nth_Swap)
          qed
        qed
      next
        fix k assume k: "0 < k \<and> k < n" and c: "parent k = j \<and> 0 < j"
        have "parent k \<noteq> i" using c f(3) by simp
        then have "le_el C (h ! parent k) (h ! k)"
          using "1.prems"(1) k unfolding heap_except_down_def by blast
        then have "le_el C (h ! j) (h ! k)" using c by simp
        moreover have "k \<noteq> i" "k \<noteq> j" using c k parent_less [of k] f(3) by auto
        ultimately show "le_el C (?h' ! parent j) (?h' ! k)"
          using f(2,3) il jl by (simp add: nth_Swap)
      qed
      have "is_heap_upto C (down C ?h' j n) n"
        using "1.IH" [OF refl False j_def _ inv] True "1.prems"(2) by (simp add: length_Swap)
      with eq show ?thesis by simp
    qed
  qed
qed

lemma heap_Pop_min:
  assumes "is_heap_upto C h (length h)" and "h \<noteq> []"
  shows "\<exists>pq'. heap_Pop C h = Inr (h ! 0, pq') \<and> mset h = add_mset (h ! 0) (mset pq')
           \<and> is_heap_upto C pq' (length pq') \<and> (\<forall>y \<in> set h. le_el C (h ! 0) y)"
proof -
  define n where "n = length h - 1"
  define h1 where "h1 = Swap h 0 n"
  define h2 where "h2 = down C h1 0 n"
  have len: "length h = Suc n" using assms(2) by (simp add: n_def)
  have len1: "length h1 = Suc n" by (simp add: h1_def length_Swap len)
  have nth1: "h1 ! k = (if k = n then h ! 0 else if k = 0 then h ! n else h ! k)" for k
    by (simp add: h1_def nth_Swap len)
  have inv: "heap_except_down C h1 n 0"
    unfolding heap_except_down_def
  proof (intro allI impI conjI)
    fix k assume k: "0 < k \<and> k < n" and pk: "parent k \<noteq> 0"
    have "parent k < k" using k by (simp add: parent_less)
    then show "le_el C (h1 ! parent k) (h1 ! k)"
      using assms(1) k pk by (simp add: nth1 is_heap_upto_def len)
  next
    fix k assume "parent k = 0 \<and> (0::nat) < 0"
    then show "le_el C (h1 ! parent 0) (h1 ! k)" by simp
  qed
  have props: "length h2 = Suc n" "mset h2 = mset h1" "h2 ! n = h1 ! n"
    using down_props [of n h1 C 0] len1 by (simp_all add: h2_def)
  have heap2: "is_heap_upto C h2 n"
    unfolding h2_def by (rule down_heap [OF inv]) (simp add: len1)
  have pop: "heap_Pop C h = Inr (h2 ! n, take n h2)"
    using assms(2) by (simp add: heap_Pop_def Let_def n_def h1_def h2_def)
  have x: "h2 ! n = h ! 0" using props(3) by (simp add: nth1)
  have "take (Suc n) h2 = take n h2 @ [h2 ! n]"
    by (rule take_Suc_conv_app_nth) (simp add: props(1))
  then have "mset (take (Suc n) h2) = add_mset (h2 ! n) (mset (take n h2))"
    by simp
  moreover have "take (Suc n) h2 = h2" by (simp add: props(1))
  ultimately have "mset h2 = add_mset (h2 ! n) (mset (take n h2))"
    by simp
  moreover have "mset h1 = mset h" by (simp add: h1_def mset_Swap len)
  ultimately have ms: "mset h = add_mset (h ! 0) (mset (take n h2))"
    using props(2) x by simp
  have ht: "is_heap_upto C (take n h2) (length (take n h2))"
    unfolding is_heap_upto_def
  proof (intro allI impI)
    fix k assume k: "0 < k \<and> k < length (take n h2)"
    then have kn: "k < n" by simp
    moreover have "parent k < n" using k kn parent_less [of k] by simp
    ultimately show "le_el C (take n h2 ! parent k) (take n h2 ! k)"
      using heap2 k by (simp add: is_heap_upto_def)
  qed
  have mn: "\<forall>y \<in> set h. le_el C (h ! 0) y"
    using heap_min [OF assms(1)] by (auto simp: in_set_conv_nth)
  show ?thesis using pop x ms ht mn by auto
qed

lemma pq_reachable_heap: "pq_reachable C pq \<Longrightarrow> is_heap_upto C pq (length pq)"
proof (induction rule: pq_reachable.induct)
  case new
  then show ?case by (simp add: NewPQueue_def is_heap_upto_def)
next
  case (enq pq el)
  have "length (heap_Push C pq el) = Suc (length pq)"
    using mset_heap_Push [of C pq el] by (metis size_mset size_add_mset add_mset_add_single)
  with enq heap_Push_heap [of C pq el] show ?case
    by (simp add: PQueue_Enqueue_def)
next
  case (deq pq el pq')
  then have ne: "pq \<noteq> []" by (auto simp: PQueue_Dequeue_def heap_Pop_def)
  from heap_Pop_min [OF deq.IH ne] deq.hyps(2) show ?case
    by (auto simp: PQueue_Dequeue_def)
qed

lemma le_el_keys:
  "le_el C x y \<Longrightarrow>
   GetCmpVal C x \<le> GetCmpVal C y \<and> (GetCmpVal C y = GetCmpVal C x \<longrightarrow> GetInitTime C x \<le> GetInitTime C y)"
  by (auto simp: le_el_def lt_el_def split: if_splits)

lemma up_stop: "(j - 1) div 2 = j \<or> \<not> Less C h j ((j - 1) div 2) \<Longrightarrow> up C h j = h"
  by (subst up.simps) (simp add: Let_def)

lemma up_go:
  "(j - 1) div 2 \<noteq> j \<Longrightarrow> Less C h j ((j - 1) div 2) \<Longrightarrow>
   up C h j = up C (Swap h ((j - 1) div 2) j) ((j - 1) div 2)"
  by (subst up.simps) (simp add: Let_def)

lemma pq_example_eval:
  "pq_example =
     [PlainReq \<lparr>InitTime = 1, ServiceTime = 3, OriginalServiceTime = 3\<rparr>,
      PlainReq \<lparr>InitTime = 0, ServiceTime = 5, OriginalServiceTime = 5\<rparr>,
      PlainReq \<lparr>InitTime = 2, ServiceTime = 3, OriginalServiceTime = 3\<rparr>]"
  by (simp add: pq_example_def PQueue_Enqueue_def Comparable_example_def heap_Push_def
        NewPQueue_def up_stop up_go Less_def Swap_def GetServiceTime_def Let_def)

lemma pq_example_Dequeue:
  "PQueue_Dequeue Comparable_example pq_example
       = Inr (PlainReq \<lparr>InitTime = 1, ServiceTime = 3, OriginalServiceTime = 3\<rparr>,
              [PlainReq \<lparr>InitTime = 2, ServiceTime = 3, OriginalServiceTime = 3\<rparr>,
               PlainReq \<lparr>InitTime = 0, ServiceTime = 5, OriginalServiceTime = 5\<rparr>])"
  unfolding pq_example_eval
  by (simp add: PQueue_Dequeue_def heap_Pop_def Comparable_example_def
          down_stop down_step Less_def Swap_def GetServiceTime_def Let_def)

text \<open>
  C4.  On a non-empty priority queue that calls of \<open>Enqueue\<close> and \<open>Dequeue\<close> have
  built from the empty one, \<open>Dequeue\<close> returns an element of the queue and the queue
  without it; the comparison key of the returned element is minimal among the queued
  elements, and among the elements with that key its \<open>InitTime\<close> is minimal.
\<close>

theorem C4_Dequeue_min:
  assumes "pq_reachable C pq" and "pq \<noteq> []"
  shows "\<exists>x pq'. PQueue_Dequeue C pq = Inr (x, pq')
           \<and> mset pq = add_mset x (mset pq')
           \<and> (\<forall>y \<in> set pq.
                 GetCmpVal C x \<le> GetCmpVal C y
                 \<and> (GetCmpVal C y = GetCmpVal C x \<longrightarrow> GetInitTime C x \<le> GetInitTime C y))"
proof -
  from heap_Pop_min [OF pq_reachable_heap [OF assms(1)] assms(2)]
  obtain pq' where "heap_Pop C pq = Inr (pq ! 0, pq')"
      "mset pq = add_mset (pq ! 0) (mset pq')" "\<forall>y \<in> set pq. le_el C (pq ! 0) y"
    by blast
  then show ?thesis
    using le_el_keys [of C "pq ! 0"] by (auto simp: PQueue_Dequeue_def)
qed

theorem C4_Dequeue_min_witness:
  "pq_reachable Comparable_example pq_example \<and> pq_example \<noteq> []
   \<and> PQueue_Dequeue Comparable_example pq_example
       = Inr (PlainReq \<lparr>InitTime = 1, ServiceTime = 3, OriginalServiceTime = 3\<rparr>,
              [PlainReq \<lparr>InitTime = 2, ServiceTime = 3, OriginalServiceTime = 3\<rparr>,
               PlainReq \<lparr>InitTime = 0, ServiceTime = 5, OriginalServiceTime = 5\<rparr>])"
proof -
  have r: "pq_reachable Comparable_example pq_example"
    unfolding pq_example_def
    by (intro pq_reachable.enq pq_reachable.new) (simp_all add: Comparable_example_def)
  have ne: "pq_example \<noteq> []" by (simp add: pq_example_eval)
  show ?thesis using r ne pq_example_Dequeue C4_Dequeue_min [OF r ne] by simp
qed

section \<open>Processor sharing\<close>

lemma min_loop_plain:
  assumes "list_all isPlainReq es"
  shows "\<exists>j. min_loop minS minI k es = Inr j
           \<and> ((j = minI \<and> (\<forall>e \<in> set es. minS \<le> GetServiceTime e))
              \<or> (k \<le> j \<and> j < k + length es \<and> GetServiceTime (es ! (j - k)) < minS
                  \<and> (\<forall>e \<in> set es. GetServiceTime (es ! (j - k)) \<le> GetServiceTime e)))"
  using assms
proof (induction es arbitrary: minS minI k)
  case Nil
  then show ?case by simp
next
  case (Cons e es)
  then obtain r where e: "e = PlainReq r" by (cases e) simp_all
  from Cons.prems have pl: "list_all isPlainReq es" by simp
  show ?case
  proof (cases "ServiceTime r < minS")
    case True
    from Cons.IH [OF pl, of "ServiceTime r" k "Suc k"]
    obtain j where j: "min_loop (ServiceTime r) k (Suc k) es = Inr j"
      and d: "(j = k \<and> (\<forall>e \<in> set es. ServiceTime r \<le> GetServiceTime e))
              \<or> (Suc k \<le> j \<and> j < Suc k + length es \<and> GetServiceTime (es ! (j - Suc k)) < ServiceTime r
                  \<and> (\<forall>e \<in> set es. GetServiceTime (es ! (j - Suc k)) \<le> GetServiceTime e))"
      by blast
    have run: "min_loop minS minI k (e # es) = Inr j"
      using True j e by simp
    from d show ?thesis
    proof
      assume a: "j = k \<and> (\<forall>e \<in> set es. ServiceTime r \<le> GetServiceTime e)"
      then have "k \<le> j \<and> j < k + length (e # es) \<and> GetServiceTime ((e # es) ! (j - k)) < minS
                  \<and> (\<forall>x \<in> set (e # es). GetServiceTime ((e # es) ! (j - k)) \<le> GetServiceTime x)"
        using True e by (simp add: GetServiceTime_def)
      with run show ?thesis by blast
    next
      assume a: "Suc k \<le> j \<and> j < Suc k + length es \<and> GetServiceTime (es ! (j - Suc k)) < ServiceTime r
                  \<and> (\<forall>e \<in> set es. GetServiceTime (es ! (j - Suc k)) \<le> GetServiceTime e)"
      then have nth: "(e # es) ! (j - k) = es ! (j - Suc k)"
        by (metis Suc_diff_Suc Suc_le_lessD nth_Cons_Suc)
      have "k \<le> j \<and> j < k + length (e # es) \<and> GetServiceTime ((e # es) ! (j - k)) < minS
                  \<and> (\<forall>x \<in> set (e # es). GetServiceTime ((e # es) ! (j - k)) \<le> GetServiceTime x)"
        using a True e unfolding nth by (auto simp: GetServiceTime_def)
      with run show ?thesis by blast
    qed
  next
    case False
    from Cons.IH [OF pl, of minS minI "Suc k"]
    obtain j where j: "min_loop minS minI (Suc k) es = Inr j"
      and d: "(j = minI \<and> (\<forall>e \<in> set es. minS \<le> GetServiceTime e))
              \<or> (Suc k \<le> j \<and> j < Suc k + length es \<and> GetServiceTime (es ! (j - Suc k)) < minS
                  \<and> (\<forall>e \<in> set es. GetServiceTime (es ! (j - Suc k)) \<le> GetServiceTime e))"
      by blast
    have run: "min_loop minS minI k (e # es) = Inr j"
      using False j e by simp
    from d show ?thesis
    proof
      assume "j = minI \<and> (\<forall>e \<in> set es. minS \<le> GetServiceTime e)"
      then have "j = minI \<and> (\<forall>x \<in> set (e # es). minS \<le> GetServiceTime x)"
        using False e by (simp add: GetServiceTime_def)
      with run show ?thesis by blast
    next
      assume a: "Suc k \<le> j \<and> j < Suc k + length es \<and> GetServiceTime (es ! (j - Suc k)) < minS
                  \<and> (\<forall>e \<in> set es. GetServiceTime (es ! (j - Suc k)) \<le> GetServiceTime e)"
      then have nth: "(e # es) ! (j - k) = es ! (j - Suc k)"
        by (metis Suc_diff_Suc Suc_le_lessD nth_Cons_Suc)
      have "k \<le> j \<and> j < k + length (e # es) \<and> GetServiceTime ((e # es) ! (j - k)) < minS
                  \<and> (\<forall>x \<in> set (e # es). GetServiceTime ((e # es) ! (j - k)) \<le> GetServiceTime x)"
        using a False e unfolding nth by (auto simp: GetServiceTime_def)
      with run show ?thesis by blast
    qed
  qed
qed

lemma getMinService_plain:
  assumes "list_all isPlainReq (reqList p)" and "reqList p \<noteq> []"
  shows "\<exists>i. getMinService p = Inr i \<and> i < length (reqList p)
           \<and> (\<forall>r \<in> set (reqList p). GetServiceTime (reqList p ! i) \<le> GetServiceTime r)"
proof -
  from assms(2) obtain front rest where rs: "reqList p = front # rest"
    by (cases "reqList p") simp_all
  with assms(1) obtain r where f: "front = PlainReq r" by (cases front) simp_all
  have g: "getMinService p = min_loop (ServiceTime r) 0 0 (reqList p)"
    by (simp add: getMinService_def rs f)
  from min_loop_plain [OF assms(1), of "ServiceTime r" 0 0]
  obtain j where j: "min_loop (ServiceTime r) 0 0 (reqList p) = Inr j"
    and d: "(j = 0 \<and> (\<forall>e \<in> set (reqList p). ServiceTime r \<le> GetServiceTime e))
          \<or> (j < length (reqList p) \<and> GetServiceTime (reqList p ! j) < ServiceTime r
              \<and> (\<forall>e \<in> set (reqList p). GetServiceTime (reqList p ! j) \<le> GetServiceTime e))"
    by auto
  from d have "j < length (reqList p)
           \<and> (\<forall>e \<in> set (reqList p). GetServiceTime (reqList p ! j) \<le> GetServiceTime e)"
    using rs f by (auto simp: GetServiceTime_def)
  with g j show ?thesis by simp
qed

lemma update_fields:
  "reqList (updateServiceTimes now p) = sub_all ((now - prevTime p) * getFactor p) (reqList p)"
  "count (updateServiceTimes now p) = count p"
  "workerCount (updateServiceTimes now p) = workerCount p"
  "curr (updateServiceTimes now p) = curr p"
  "prevTime (updateServiceTimes now p) = now"
  by (simp_all add: updateServiceTimes_def Let_def)

lemma isPlainReq_Sub: "isPlainReq (SubServiceTime d el) = isPlainReq el"
  by (cases el) (simp_all add: SubServiceTime_def)


lemma plain_sub_all: "list_all isPlainReq (sub_all d rs) = list_all isPlainReq rs"
  by (induction rs) (simp_all add: isPlainReq_Sub)

lemma length_sub_all: "length (sub_all d rs) = length rs"
  by (simp add: sub_all_map)

lemma length_remove_at: "i < length xs \<Longrightarrow> length (remove_at i xs) = length xs - 1"
  by (simp add: remove_at_def)

lemma set_remove_at: "set (remove_at i xs) \<subseteq> set xs"
  by (auto simp: remove_at_def dest: in_set_takeD in_set_dropD)

lemma list_all_remove_at: "list_all P xs \<Longrightarrow> list_all P (remove_at i xs)"
  using set_remove_at [of i xs] by (auto simp: list_all_iff)

lemma PS_body_rearm:
  assumes "PS_dispatch now w (updateServiceTimes now (proc st), ps_keeper st, terminated st)
             = Inr (p2, k, t)"
    and "count p2 = int (length (reqList p2))"
    and "list_all isPlainReq (reqList p2)"
    and "prevTime p2 = now"
  shows "\<exists>st'. PS_body (now, w) st = Inr st' \<and> PS_wf st'
           \<and> reqList (proc st') = reqList p2 \<and> workerCount (proc st') = workerCount p2
           \<and> count (proc st') = count p2
           \<and> ps_keeper st' = k \<and> terminated st' = t \<and> ps_clock st' = now"
proof (cases "reqList p2 = []")
  case True
  with assms(2) have "\<not> count p2 > 0" by simp
  then have "PS_body (now, w) st =
      Inr \<lparr>proc = p2, next_d = - 1, ps_keeper = k, ps_clock = now, terminated = t\<rparr>"
    using assms(1) by (simp add: PS_body_def Let_def)
  moreover have "PS_wf \<lparr>proc = p2, next_d = - 1, ps_keeper = k, ps_clock = now, terminated = t\<rparr>"
    using True assms(2,4) by (simp add: PS_wf_def)
  ultimately show ?thesis by simp
next
  case False
  with assms(2) have c: "count p2 > 0" by simp
  from getMinService_plain [OF assms(3) False]
  obtain i where i: "getMinService p2 = Inr i" "i < length (reqList p2)"
      "\<forall>r \<in> set (reqList p2). GetServiceTime (reqList p2 ! i) \<le> GetServiceTime r"
    by blast
  let ?st' = "\<lparr>proc = p2\<lparr>curr := Element i\<rparr>,
               next_d = GetServiceTime (reqList p2 ! i) / getFactor (p2\<lparr>curr := Element i\<rparr>),
               ps_keeper = k, ps_clock = now, terminated = t\<rparr>"
  have "PS_body (now, w) st = Inr ?st'"
    using assms(1) c i(1) by (simp add: PS_body_def Let_def)
  moreover have "PS_wf ?st'"
    using False assms(2,3,4) i(2,3) by (simp add: PS_wf_def)
  ultimately show ?thesis by simp
qed

lemma PS_dispatch_timer:
  assumes "PS_wf st" and "0 \<le> next_d st"
  shows "\<exists>i. i < length (reqList (proc st)) \<and> curr (proc st) = Element i
           \<and> (\<forall>r \<in> set (reqList (proc st)).
                  GetServiceTime (reqList (proc st) ! i) \<le> GetServiceTime r)
           \<and> next_d st = GetServiceTime (reqList (proc st) ! i) / getFactor (proc st)
           \<and> PS_dispatch now TimerExpired
                (updateServiceTimes now (proc st), ps_keeper st, terminated st)
              = Inr ((updateServiceTimes now (proc st))
                       \<lparr>reqList := remove_at i (reqList (updateServiceTimes now (proc st))),
                        curr := Removed (reqList (updateServiceTimes now (proc st)) ! i),
                        count := count (proc st) - 1\<rparr>,
                     TerminateReq now (reqList (updateServiceTimes now (proc st)) ! i) (ps_keeper st),
                     terminated st @ [(reqList (updateServiceTimes now (proc st)) ! i, now)])"
proof -
  from assms have ne: "reqList (proc st) \<noteq> []"
    by (auto simp: PS_wf_def split: if_splits)
  with assms(1) obtain i where i: "curr (proc st) = Element i" "i < length (reqList (proc st))"
      "\<forall>r \<in> set (reqList (proc st)). GetServiceTime (reqList (proc st) ! i) \<le> GetServiceTime r"
      "next_d st = GetServiceTime (reqList (proc st) ! i) / getFactor (proc st)"
    by (auto simp: PS_wf_def)
  have "PS_dispatch now TimerExpired
                (updateServiceTimes now (proc st), ps_keeper st, terminated st)
              = Inr ((updateServiceTimes now (proc st))
                       \<lparr>reqList := remove_at i (reqList (updateServiceTimes now (proc st))),
                        curr := Removed (reqList (updateServiceTimes now (proc st)) ! i),
                        count := count (proc st) - 1\<rparr>,
                     TerminateReq now (reqList (updateServiceTimes now (proc st)) ! i) (ps_keeper st),
                     terminated st @ [(reqList (updateServiceTimes now (proc st)) ! i, now)])"
    using i(1,2) by (simp add: PS_dispatch_def update_fields length_sub_all Let_def)
  with i show ?thesis by blast
qed

text \<open>What an iteration does on a timer expiry and on an arrival, for a well-formed state.\<close>

lemma PS_body_timer:
  assumes "PS_wf st" and "0 \<le> next_d st"
  shows "\<exists>st' i. PS_body (now, TimerExpired) st = Inr st' \<and> PS_wf st'
           \<and> i < length (reqList (proc st))
           \<and> (\<forall>r \<in> set (reqList (proc st)).
                  GetServiceTime (reqList (proc st) ! i) \<le> GetServiceTime r)
           \<and> next_d st = GetServiceTime (reqList (proc st) ! i) / getFactor (proc st)
           \<and> reqList (proc st')
               = remove_at i (sub_all ((now - prevTime (proc st)) * getFactor (proc st))
                                (reqList (proc st)))
           \<and> workerCount (proc st') = workerCount (proc st)
           \<and> ps_keeper st'
               = TerminateReq now
                   (sub_all ((now - prevTime (proc st)) * getFactor (proc st))
                      (reqList (proc st)) ! i) (ps_keeper st)
           \<and> terminated st'
               = terminated st @
                   [(sub_all ((now - prevTime (proc st)) * getFactor (proc st))
                       (reqList (proc st)) ! i, now)]
           \<and> ps_clock st' = now"
proof -
  from PS_dispatch_timer [OF assms, of now] obtain i where
    i: "i < length (reqList (proc st))"
       "\<forall>r \<in> set (reqList (proc st)). GetServiceTime (reqList (proc st) ! i) \<le> GetServiceTime r"
       "next_d st = GetServiceTime (reqList (proc st) ! i) / getFactor (proc st)"
    and d: "PS_dispatch now TimerExpired
                (updateServiceTimes now (proc st), ps_keeper st, terminated st)
              = Inr ((updateServiceTimes now (proc st))
                       \<lparr>reqList := remove_at i (reqList (updateServiceTimes now (proc st))),
                        curr := Removed (reqList (updateServiceTimes now (proc st)) ! i),
                        count := count (proc st) - 1\<rparr>,
                     TerminateReq now (reqList (updateServiceTimes now (proc st)) ! i) (ps_keeper st),
                     terminated st @ [(reqList (updateServiceTimes now (proc st)) ! i, now)])"
    by blast
  have wf: "count (proc st) = int (length (reqList (proc st)))"
      "list_all isPlainReq (reqList (proc st))"
    using assms(1) by (simp_all add: PS_wf_def)
  from PS_body_rearm [OF d] obtain st' where
    "PS_body (now, TimerExpired) st = Inr st'" "PS_wf st'"
    "reqList (proc st') = remove_at i (reqList (updateServiceTimes now (proc st)))"
    "workerCount (proc st') = workerCount (proc st)"
    "ps_keeper st' = TerminateReq now (reqList (updateServiceTimes now (proc st)) ! i) (ps_keeper st)"
    "terminated st' = terminated st @ [(reqList (updateServiceTimes now (proc st)) ! i, now)]"
    "ps_clock st' = now"
    using i(1) wf
    by (auto simp: update_fields length_remove_at length_sub_all plain_sub_all
          list_all_remove_at)
  with i show ?thesis by (auto simp: update_fields)
qed

lemma PS_body_arrival:
  assumes "PS_wf st" and "isPlainReq newReq"
  shows "\<exists>st'. PS_body (now, Arrived newReq) st = Inr st' \<and> PS_wf st'
           \<and> reqList (proc st')
               = sub_all ((now - prevTime (proc st)) * getFactor (proc st)) (reqList (proc st))
                 @ [newReq]
           \<and> workerCount (proc st') = workerCount (proc st)
           \<and> count (proc st') = count (proc st) + 1
           \<and> ps_keeper st' = ps_keeper st \<and> terminated st' = terminated st
           \<and> ps_clock st' = now"
proof -
  have wf: "count (proc st) = int (length (reqList (proc st)))"
      "list_all isPlainReq (reqList (proc st))"
    using assms(1) by (simp_all add: PS_wf_def)
  have d: "PS_dispatch now (Arrived newReq)
             (updateServiceTimes now (proc st), ps_keeper st, terminated st)
           = Inr ((updateServiceTimes now (proc st))
                    \<lparr>count := count (updateServiceTimes now (proc st)) + 1,
                     reqList := reqList (updateServiceTimes now (proc st)) @ [newReq]\<rparr>,
                  ps_keeper st, terminated st)"
    by (simp add: PS_dispatch_def)
  from PS_body_rearm [OF d] wf assms(2) show ?thesis
    by (auto simp: update_fields length_sub_all plain_sub_all)
qed

text \<open>
  From a well-formed state, an iteration on a resumption that the engine can produce
  does not panic and ends in a well-formed state; in particular a timer expiry finds
  \<open>curr\<close> at a position of the list.
\<close>

lemma PS_wf_step:
  assumes "PS_wf st" and "WaitInterruptible_ok (ps_clock st) (next_d st) inp"
    and "arrival_fresh inp"
  shows "\<exists>st'. PS_body inp st = Inr st' \<and> PS_wf st'"
proof -
  obtain now w where inp: "inp = (now, w)" by (cases inp)
  show ?thesis
  proof (cases w)
    case TimerExpired
    with assms(2) inp have "0 \<le> next_d st" by (simp add: WaitInterruptible_ok_def)
    from PS_body_timer [OF assms(1) this, of now] inp TimerExpired show ?thesis by blast
  next
    case (Arrived newReq)
    with assms(3) inp have "newReq = NewRequest now (GetServiceTime newReq)" by simp
    then have "isPlainReq newReq" by (metis NewRequest_def isPlainReq.simps(1))
    from PS_body_arrival [OF assms(1) this, of now] inp Arrived show ?thesis by blast
  qed
qed























section \<open>Requests stay within their bounds\<close>
























end
